theory Spec2Isabelle
  imports Main "HOL-Library.Sublist"
begin

section \<open>Python strings\<close>

text \<open>
  A Python \<open>str\<close> is a sequence of Unicode code points, so it is modelled as a list of
  natural numbers (one per code point). A literal of the source is written with \<open>py\<close>,
  which maps each character of an Isabelle string literal to its code point.
  The bytes of a file are an Isabelle \<open>string\<close> (a list of 8-bit characters).
\<close>

type_synonym str = "nat list"

abbreviation py :: "string \<Rightarrow> str" where
  "py s \<equiv> map of_char s"

text \<open>\<^verbatim>\<open>sub in s\<close>: the substring test.\<close>

fun str_contains :: "str \<Rightarrow> str \<Rightarrow> bool" where
  "str_contains sub [] = (sub = [])"
| "str_contains sub (c # cs) = (prefix sub (c # cs) \<or> str_contains sub cs)"

text \<open>
  \<^verbatim>\<open>s.replace(old, new)\<close>: the occurrences of \<open>old\<close> are found from left to right and do
  not overlap; each is replaced by \<open>new\<close>. For an empty \<open>old\<close> Python puts \<open>new\<close> before
  every character and at the end.
\<close>

function replace_scan :: "str \<Rightarrow> str \<Rightarrow> str \<Rightarrow> str" where
  "replace_scan old new [] = []"
| "replace_scan old new (c # cs) =
     (if old \<noteq> [] \<and> prefix old (c # cs)
      then new @ replace_scan old new (drop (length old) (c # cs))
      else c # replace_scan old new cs)"
  by pat_completeness auto
termination
  by (relation "measure (\<lambda>(old, new, s). length s)") auto

definition str_replace :: "str \<Rightarrow> str \<Rightarrow> str \<Rightarrow> str" where
  "str_replace s old new =
     (if old = [] then new @ concat (map (\<lambda>c. c # new) s) else replace_scan old new s)"

text \<open>
  \<^verbatim>\<open>c.isspace()\<close> for one code point, the set that \<^verbatim>\<open>str.strip()\<close> removes: the Unicode
  white space of CPython (U+0009..U+000D, U+001C..U+0020, U+0085, U+00A0, U+1680,
  U+2000..U+200A, U+2028, U+2029, U+202F, U+205F, U+3000).
\<close>

definition isspace :: "nat \<Rightarrow> bool" where
  "isspace c =
     ((9 \<le> c \<and> c \<le> 13) \<or> (28 \<le> c \<and> c \<le> 32) \<or> c = 133 \<or> c = 160 \<or> c = 5760
      \<or> (8192 \<le> c \<and> c \<le> 8202) \<or> c = 8232 \<or> c = 8233 \<or> c = 8239 \<or> c = 8287
      \<or> c = 12288)"

text \<open>\<^verbatim>\<open>s.strip()\<close>: white space removed at both ends.\<close>

definition strip :: "str \<Rightarrow> str" where
  "strip s = rev (dropWhile isspace (rev (dropWhile isspace s)))"

text \<open>The decimal digits of a number, as the f-string \<^verbatim>\<open>{page_number + 1}\<close> prints it.\<close>

fun str_of_nat :: "nat \<Rightarrow> str" where
  "str_of_nat n = (if n < 10 then [48 + n] else str_of_nat (n div 10) @ [48 + n mod 10])"

declare str_of_nat.simps [simp del]

section \<open>The newline-collapsing loop\<close>

text \<open>
  \<^verbatim>\<open>
  while "\n\n" in content:
      content = content.replace("\n\n", "\n")
  \<close>
  The loop is a recursive function. Each round shortens the string (lemma
  \<open>replace_scan_shorter\<close> below), which is its termination argument.
\<close>

lemma str_contains_sublist: "str_contains sub s = sublist sub s"
  by (induction s) (auto simp: sublist_Cons_right)

lemma replace_scan_nn_Cons2:
  "replace_scan [10, 10] [10] (a # b # r) =
     (if a = 10 \<and> b = 10 then 10 # replace_scan [10, 10] [10] r
      else a # replace_scan [10, 10] [10] (b # r))"
  by simp

lemma replace_scan_nn_single: "replace_scan [10, 10] [10] [a] = [a]"
  by simp

lemma replace_scan_nn_length: "length (replace_scan [10, 10] [10] s) \<le> length s"
  by (induction s rule: induct_list012) (simp_all del: replace_scan.simps(2) add: replace_scan_nn_Cons2 replace_scan_nn_single)

lemma replace_scan_shorter:
  "sublist [10, 10] s \<Longrightarrow> length (replace_scan [10, 10] [10] s) < length s"
proof (induction s rule: induct_list012)
  case 1
  then show ?case by simp
next
  case (2 x)
  then show ?case by (simp add: sublist_Cons_right)
next
  case (3 a b r)
  show ?case
  proof (cases "a = 10 \<and> b = 10")
    case True
    have "length (replace_scan [10, 10] [10] r) \<le> length r"
      by (rule replace_scan_nn_length)
    with True show ?thesis
      by (simp del: replace_scan.simps(2) add: replace_scan_nn_Cons2)
  next
    case False
    with 3(3) have "sublist [10, 10] (b # r)"
      by (auto simp: sublist_Cons_right)
    with 3(2) False show ?thesis
      by (auto simp del: replace_scan.simps(2) simp add: replace_scan_nn_Cons2)
  qed
qed

function collapse_newlines :: "str \<Rightarrow> str" where
  "collapse_newlines content =
     (if str_contains (py ''\<newline>\<newline>'') content
      then collapse_newlines (str_replace content (py ''\<newline>\<newline>'') (py ''\<newline>''))
      else content)"
  by pat_completeness auto
termination
  by (relation "measure length")
     (auto simp: str_contains_sublist str_replace_def replace_scan_shorter)

declare collapse_newlines.simps [simp del]

text \<open>
  The wording of the specification, for comparison with the loop: every run of two or more
  consecutive newline characters becomes a single newline. A newline that is followed by
  another newline is dropped; every other character is kept.
\<close>

fun squeeze_newline_runs :: "str \<Rightarrow> str" where
  "squeeze_newline_runs (a # b # r) =
     (if a = 10 \<and> b = 10 then squeeze_newline_runs (b # r)
      else a # squeeze_newline_runs (b # r))"
| "squeeze_newline_runs s = s"

section \<open>The extraction routine\<close>

text \<open>
  An exception carries what \<^verbatim>\<open>str(e)\<close> returns, its \<open>message\<close>. \<open>Exception m\<close> is an
  instance of Python's class \<open>Exception\<close>, as the file system calls and the PDF library
  raise for a file they cannot read. \<open>BaseException m\<close> is an exception whose class
  derives from \<open>BaseException\<close> only (\<open>SystemExit\<close>, \<open>KeyboardInterrupt\<close>,
  \<open>GeneratorExit\<close>): the clause \<^verbatim>\<open>except Exception\<close> does not catch it.
\<close>

datatype exn = is_Exception: Exception (message: str) | BaseException (message: str)

text \<open>
  A page of an opened document is the outcome of reaching it in \<^verbatim>\<open>reader.pages\<close> and of
  \<^verbatim>\<open>page.extract_text()\<close>: an exception, or the extracted text, which may be absent.
  The PDF library is a parameter \<open>PdfReader\<close> of the routine: a function from the bytes of
  the file to an exception or to the pages of the document. The file system maps a path
  to the bytes stored there, and is undefined where \<^verbatim>\<open>os.path.exists\<close> is false.
\<close>

type_synonym page = "exn + str option"

type_synonym pdf_library = "string \<Rightarrow> exn + page list"

type_synonym filesystem = "str \<rightharpoonup> string"

text \<open>What the routine asks of the file system, in order.\<close>

datatype fs_access = Stat str | Open str

text \<open>\<^verbatim>\<open>f"\n--- Page {page_number + 1} ---\n"\<close>\<close>

definition page_marker :: "nat \<Rightarrow> str" where
  "page_marker page_number =
     py ''\<newline>--- Page '' @ str_of_nat (page_number + 1) @ py '' ---\<newline>''"

text \<open>
  \<^verbatim>\<open>
  for page_number, page in enumerate(reader.pages):
      content = page.extract_text()
      if content:
          while "\n\n" in content:
              content = content.replace("\n\n", "\n")
          full_report += f"\n--- Page {page_number + 1} ---\n"
          full_report += content.strip() + "\n"
  \<close>
  \<^verbatim>\<open>if content\<close> is false for \<open>None\<close> and for the empty string. An exception leaves the
  loop at once.
\<close>

fun pages_loop :: "nat \<Rightarrow> str \<Rightarrow> page list \<Rightarrow> exn + str" where
  "pages_loop page_number full_report [] = Inr full_report"
| "pages_loop page_number full_report (Inl e # pages) = Inl e"
| "pages_loop page_number full_report (Inr None # pages) =
     pages_loop (page_number + 1) full_report pages"
| "pages_loop page_number full_report (Inr (Some content) # pages) =
     (if content \<noteq> []
      then pages_loop (page_number + 1)
             (full_report @ page_marker page_number
                @ strip (collapse_newlines content) @ py ''\<newline>'')
             pages
      else pages_loop (page_number + 1) full_report pages)"

text \<open>
  The body of the \<^verbatim>\<open>try\<close> block: the accesses to the file system it makes, and the
  exception it raises or the string it returns.
\<close>

definition read_data_tool_try ::
    "pdf_library \<Rightarrow> filesystem \<Rightarrow> str \<Rightarrow> fs_access list \<times> (exn + str)" where
  "read_data_tool_try PdfReader fs path =
     (case fs path of
        None \<Rightarrow> ([Stat path], Inr (py ''Error: File not found at '' @ path))
      | Some bytes \<Rightarrow>
          ([Stat path, Open path],
           (case PdfReader bytes of
              Inl e \<Rightarrow> Inl e
            | Inr pages \<Rightarrow>
                (case pages_loop 0 [] pages of
                   Inl e \<Rightarrow> Inl e
                 | Inr full_report \<Rightarrow>
                     if strip full_report = []
                     then Inr (py ''Warning: No readable text found in the PDF.'')
                     else Inr full_report))))"

text \<open>
  The whole routine, with \<^verbatim>\<open>except Exception as e: return f"Error reading PDF: {str(e)}"\<close>
  around the body. The clause catches the instances of \<open>Exception\<close>; any other
  exception goes on to the caller: a result \<open>Inl e\<close> is an exception that leaves the
  routine.
\<close>

definition read_data_tool ::
    "pdf_library \<Rightarrow> filesystem \<Rightarrow> str \<Rightarrow> fs_access list \<times> (exn + str)" where
  "read_data_tool PdfReader fs path =
     (case read_data_tool_try PdfReader fs path of
        (accesses, Inl e) \<Rightarrow>
          if is_Exception e
          then (accesses, Inr (py ''Error reading PDF: '' @ message e))
          else (accesses, Inl e)
      | (accesses, Inr result) \<Rightarrow> (accesses, Inr result))"

text \<open>A page adds a block to the report when its extracted text is present and not empty.\<close>

definition contributes :: "page \<Rightarrow> bool" where
  "contributes p = (case p of Inr (Some content) \<Rightarrow> content \<noteq> [] | _ \<Rightarrow> False)"

text \<open>The block a page adds: marker, cleaned text, newline.\<close>

definition page_block :: "nat \<Rightarrow> str \<Rightarrow> str" where
  "page_block page_number content =
     page_marker page_number @ strip (collapse_newlines content) @ py ''\<newline>''"

text \<open>
  The pages that add a block, in document order: the index of the page (counted from
  \<open>start\<close>) and its extracted text.
\<close>

definition contributing_pages :: "nat \<Rightarrow> page list \<Rightarrow> (nat \<times> str) list" where
  "contributing_pages start pages =
     List.map_filter
       (\<lambda>(i, p). case p of
           Inr (Some content) \<Rightarrow> if content \<noteq> [] then Some (i, content) else None
         | _ \<Rightarrow> None)
       (enumerate start pages)"

section \<open>Properties of the newline-collapsing loop\<close>

lemma replace_scan_nn_id:
  "\<not> sublist [10, 10] s \<Longrightarrow> replace_scan [10, 10] [10] s = s"
proof (induction s rule: induct_list012)
  case (3 a b r)
  from 3(3) have nb: "\<not> sublist [10, 10] (b # r)" and ne: "\<not> (a = 10 \<and> b = 10)"
    by (auto simp: sublist_Cons_right)
  with 3(2) show ?case
    by (auto simp del: replace_scan.simps(2) simp add: replace_scan_nn_Cons2)
qed simp_all

lemma squeeze_id:
  "\<not> sublist [10, 10] s \<Longrightarrow> squeeze_newline_runs s = s"
proof (induction s rule: induct_list012)
  case (3 a b r)
  from 3(3) have nb: "\<not> sublist [10, 10] (b # r)" and ne: "\<not> (a = 10 \<and> b = 10)"
    by (auto simp: sublist_Cons_right)
  with 3(2) show ?case by auto
qed simp_all

lemma squeeze_Cons:
  "squeeze_newline_runs (c # xs) =
     (if c = 10 \<and> squeeze_newline_runs xs \<noteq> [] \<and> hd (squeeze_newline_runs xs) = 10
      then squeeze_newline_runs xs else c # squeeze_newline_runs xs)"
proof -
  have nil: "squeeze_newline_runs ys = [] \<longleftrightarrow> ys = []" for ys
    by (induction ys rule: squeeze_newline_runs.induct) auto
  have hd: "ys \<noteq> [] \<Longrightarrow> hd (squeeze_newline_runs ys) = hd ys" for ys
    by (induction ys rule: squeeze_newline_runs.induct) auto
  show ?thesis
    by (cases xs) (auto simp: nil hd)
qed

lemma squeeze_replace:
  "squeeze_newline_runs (replace_scan [10, 10] [10] s) = squeeze_newline_runs s"
proof (induction s rule: induct_list012)
  case (3 a b r)
  show ?case
  proof (cases "a = 10 \<and> b = 10")
    case True
    have "squeeze_newline_runs (replace_scan [10, 10] [10] (a # b # r))
        = squeeze_newline_runs (10 # replace_scan [10, 10] [10] r)"
      using True by (simp del: replace_scan.simps(2) add: replace_scan_nn_Cons2)
    also have "\<dots> = squeeze_newline_runs (10 # r)"
      by (simp only: squeeze_Cons [of 10] 3(1))
    also have "\<dots> = squeeze_newline_runs (a # b # r)"
      using True by simp
    finally show ?thesis .
  next
    case False
    have "squeeze_newline_runs (replace_scan [10, 10] [10] (a # b # r))
        = squeeze_newline_runs (a # replace_scan [10, 10] [10] (b # r))"
      using False by (auto simp del: replace_scan.simps(2) simp add: replace_scan_nn_Cons2)
    also have "\<dots> = squeeze_newline_runs (a # b # r)"
      by (simp only: squeeze_Cons [of a] 3(2))
    finally show ?thesis .
  qed
qed simp_all

lemma str_replace_nn: "str_replace s [10, 10] [10] = replace_scan [10, 10] [10] s"
  by (simp add: str_replace_def)

lemma collapse_eq_squeeze: "collapse_newlines s = squeeze_newline_runs s"
proof (induction s rule: collapse_newlines.induct)
  case (1 content)
  show ?case
  proof (cases "sublist [10, 10] content")
    case True
    then have "collapse_newlines content = collapse_newlines (replace_scan [10, 10] [10] content)"
      by (subst collapse_newlines.simps) (simp add: str_contains_sublist str_replace_nn)
    also have "\<dots> = squeeze_newline_runs (replace_scan [10, 10] [10] content)"
      using 1 True by (simp add: str_contains_sublist str_replace_nn)
    finally show ?thesis by (simp add: squeeze_replace)
  next
    case False
    then have "collapse_newlines content = content"
      by (subst collapse_newlines.simps) (simp add: str_contains_sublist)
    with False show ?thesis by (simp add: squeeze_id)
  qed
qed

lemma collapse_no_nn: "\<not> sublist [10, 10] (collapse_newlines s)"
proof (induction s rule: collapse_newlines.induct)
  case (1 content)
  show ?case
  proof (cases "sublist [10, 10] content")
    case True
    then have "collapse_newlines content = collapse_newlines (replace_scan [10, 10] [10] content)"
      by (subst collapse_newlines.simps) (simp add: str_contains_sublist str_replace_nn)
    with 1 True show ?thesis by (simp add: str_contains_sublist str_replace_nn)
  next
    case False
    then have "collapse_newlines content = content"
      by (subst collapse_newlines.simps) (simp add: str_contains_sublist)
    with False show ?thesis by simp
  qed
qed

lemma set_replace_scan_nn: "set (replace_scan [10, 10] [10] s) \<subseteq> set s"
  by (induction s rule: induct_list012)
     (auto simp del: replace_scan.simps(2) simp add: replace_scan_nn_Cons2 replace_scan_nn_single split: if_splits)

lemma set_collapse: "set (collapse_newlines s) \<subseteq> set s"
proof (induction s rule: collapse_newlines.induct)
  case (1 content)
  show ?case
  proof (cases "sublist [10, 10] content")
    case True
    then have "collapse_newlines content = collapse_newlines (replace_scan [10, 10] [10] content)"
      by (subst collapse_newlines.simps) (simp add: str_contains_sublist str_replace_nn)
    moreover have "set (collapse_newlines (replace_scan [10, 10] [10] content)) \<subseteq> set (replace_scan [10, 10] [10] content)"
      using 1 True by (simp add: str_contains_sublist str_replace_nn)
    ultimately show ?thesis using set_replace_scan_nn [of content] by auto
  next
    case False
    then have "collapse_newlines content = content"
      by (subst collapse_newlines.simps) (simp add: str_contains_sublist)
    then show ?thesis by simp
  qed
qed

section \<open>Properties of trimming and of the page loop\<close>

lemma strip_sublist: "sublist (strip s) s"
proof -
  have "suffix (dropWhile isspace (rev (dropWhile isspace s))) (rev (dropWhile isspace s))"
    by (rule suffix_dropWhile)
  then have "prefix (strip s) (dropWhile isspace s)"
    by (simp add: strip_def suffix_to_prefix)
  moreover have "suffix (dropWhile isspace s) s"
    by (rule suffix_dropWhile)
  ultimately show ?thesis
    by (meson prefix_imp_sublist suffix_imp_sublist sublist_order.order_trans)
qed

lemma strip_no_nn: "\<not> sublist [10, 10] s \<Longrightarrow> \<not> sublist [10, 10] (strip s)"
  using strip_sublist [of s] by (meson sublist_order.order_trans)

lemma strip_eq_Nil: "strip s = [] \<longleftrightarrow> (\<forall>c\<in>set s. isspace c)"
proof
  assume "strip s = []"
  then have "dropWhile isspace (rev (dropWhile isspace s)) = []"
    by (simp add: strip_def)
  then have "\<forall>c\<in>set (dropWhile isspace s). isspace c"
    by (simp add: dropWhile_eq_Nil_conv)
  moreover have "\<forall>c\<in>set (takeWhile isspace s). isspace c"
    by (auto dest: set_takeWhileD)
  moreover have "set s = set (takeWhile isspace s) \<union> set (dropWhile isspace s)"
    by (metis set_append takeWhile_dropWhile_id)
  ultimately show "\<forall>c\<in>set s. isspace c" by blast
next
  assume "\<forall>c\<in>set s. isspace c"
  then have "dropWhile isspace s = []" by (simp add: dropWhile_eq_Nil_conv)
  then show "strip s = []" by (simp only: strip_def dropWhile.simps rev.simps)
qed

lemma strip_ends:
  assumes "strip s \<noteq> []"
  shows "\<not> isspace (hd (strip s))" and "\<not> isspace (last (strip s))"
proof -
  let ?l = "dropWhile isspace s"
  let ?m = "dropWhile isspace (rev ?l)"
  from assms have m: "?m \<noteq> []" by (simp add: strip_def)
  then have "\<not> isspace (hd ?m)" by (rule hd_dropWhile)
  with m show "\<not> isspace (last (strip s))" by (simp add: strip_def last_rev)
  from m have l: "?l \<noteq> []" by (metis dropWhile.simps(1) rev_is_Nil_conv)
  then have hl: "\<not> isspace (hd ?l)" by (rule hd_dropWhile)
  have "suffix ?m (rev ?l)" by (rule suffix_dropWhile)
  then have "prefix (strip s) ?l" by (simp add: strip_def suffix_to_prefix)
  with assms have "hd (strip s) = hd ?l"
    by (auto simp: prefix_def)
  with hl show "\<not> isspace (hd (strip s))" by simp
qed

lemma pages_loop_report:
  "pages_loop n (r @ r') pages = map_sum id ((@) r) (pages_loop n r' pages)"
proof (induction pages arbitrary: n r')
  case Nil
  show ?case by simp
next
  case (Cons p pages)
  show ?case
  proof (cases p)
    case (Inl e)
    then show ?thesis by simp
  next
    case (Inr content)
    then show ?thesis
      using Cons [of "Suc n" r']
        Cons [of "Suc n" "r' @ page_marker n @ strip (collapse_newlines (the content)) @ [10]"]
      by (cases content) simp_all
  qed
qed

lemma pages_loop_append:
  "pages_loop n r (xs @ ys) =
     (case pages_loop n r xs of Inl e \<Rightarrow> Inl e | Inr r' \<Rightarrow> pages_loop (n + length xs) r' ys)"
proof (induction xs arbitrary: n r)
  case Nil
  show ?case by simp
next
  case (Cons p xs)
  show ?case
  proof (cases p)
    case (Inl e)
    then show ?thesis by simp
  next
    case (Inr content)
    then show ?thesis
      by (cases content) (simp_all add: Cons cong: sum.case_cong)
  qed
qed

lemma pages_loop_Inr_pages:
  "pages_loop n r pages = Inr report \<Longrightarrow> \<forall>p\<in>set pages. \<not> isl p"
proof (induction pages arbitrary: n r)
  case Nil
  show ?case by simp
next
  case (Cons p pages)
  show ?case
  proof (cases p)
    case (Inl e)
    with Cons.prems show ?thesis by simp
  next
    case (Inr content)
    with Cons show ?thesis
      by (cases content) (auto split: if_splits)
  qed
qed


lemma contributing_pages_simps:
  "contributing_pages n [] = []"
  "contributing_pages n (Inl e # pages) = contributing_pages (Suc n) pages"
  "contributing_pages n (Inr None # pages) = contributing_pages (Suc n) pages"
  "contributing_pages n (Inr (Some content) # pages) =
     (if content \<noteq> [] then (n, content) # contributing_pages (Suc n) pages
      else contributing_pages (Suc n) pages)"
  by (simp_all add: contributing_pages_def map_filter_simps)

lemma contributing_pages_append:
  "contributing_pages n (xs @ ys) = contributing_pages n xs @ contributing_pages (n + length xs) ys"
  by (simp add: contributing_pages_def enumerate_append_eq List.map_filter_def)

lemma contributing_pages_mem:
  "(i, c) \<in> set (contributing_pages n pages) \<longleftrightarrow>
     n \<le> i \<and> i < n + length pages \<and> pages ! (i - n) = Inr (Some c) \<and> c \<noteq> []"
proof (induction pages arbitrary: n)
  case Nil
  show ?case by (simp add: contributing_pages_simps)
next
  case (Cons p pages)
  have shift: "n \<le> i \<Longrightarrow> i \<noteq> n \<Longrightarrow> (p # pages) ! (i - n) = pages ! (i - Suc n)" for i
    by (simp add: nth_Cons')
  show ?case
  proof (cases p)
    case (Inl e)
    then show ?thesis
      using Cons [of "Suc n"] shift [of i]
      by (cases "i = n") (auto simp: contributing_pages_simps)
  next
    case (Inr content)
    show ?thesis
    proof (cases content)
      case None
      with Inr show ?thesis
        using Cons [of "Suc n"] shift [of i]
        by (cases "i = n") (auto simp: contributing_pages_simps)
    next
      case (Some t)
      with Inr show ?thesis
        using Cons [of "Suc n"] shift [of i]
        by (cases "i = n") (auto simp: contributing_pages_simps)
    qed
  qed
qed

lemma contributing_pages_sorted: "sorted_wrt (<) (map fst (contributing_pages n pages))"
proof (induction pages arbitrary: n)
  case Nil
  show ?case by (simp add: contributing_pages_simps)
next
  case (Cons p pages)
  have "\<forall>x\<in>set (contributing_pages (Suc n) pages). n < fst x"
    using contributing_pages_mem [of _ _ "Suc n" pages] by fastforce
  with Cons [of "Suc n"] show ?case
    by (cases p; cases "projr p") (auto simp: contributing_pages_simps)
qed

lemma contributing_pages_Nil:
  "contributing_pages n pages = [] \<longleftrightarrow> (\<forall>p\<in>set pages. \<not> contributes p)"
  by (induction pages arbitrary: n)
     (auto simp: contributing_pages_simps contributes_def split: sum.splits option.splits)

lemma pages_loop_closed_form:
  "\<forall>p\<in>set pages. \<not> isl p \<Longrightarrow>
   pages_loop n r pages =
     Inr (r @ concat (map (\<lambda>(i, c). page_block i c) (contributing_pages n pages)))"
proof (induction pages arbitrary: n r)
  case Nil
  show ?case by (simp add: contributing_pages_simps)
next
  case (Cons p pages)
  from Cons.prems obtain content where p: "p = Inr content" by (cases p) auto
  from Cons.prems have rest: "\<forall>p\<in>set pages. \<not> isl p" by simp
  show ?case
  proof (cases content)
    case None
    with p show ?thesis
      by (simp add: contributing_pages_simps Cons.IH [OF rest])
  next
    case (Some t)
    with p show ?thesis
      by (simp add: contributing_pages_simps Cons.IH [OF rest] page_block_def)
  qed
qed

lemma page_block_props:
  "page_block n c \<noteq> []" "hd (page_block n c) = 10" "last (page_block n c) = 10"
  "45 \<in> set (page_block n c)"
  by (simp_all add: page_block_def page_marker_def)

lemma report_nonempty:
  assumes "pages_loop 0 [] pages = Inr report"
  shows "(strip report = []) = (\<forall>p\<in>set pages. \<not> contributes p)"
    and "(strip report = []) = (report = [])"
    and "strip report \<noteq> [] \<Longrightarrow> prefix (py ''\<newline>--- Page '') report"
proof -
  let ?cs = "contributing_pages 0 pages"
  from assms have ok: "\<forall>p\<in>set pages. \<not> isl p" by (rule pages_loop_Inr_pages)
  with assms have rep: "report = concat (map (\<lambda>(i, c). page_block i c) ?cs)"
    by (simp add: pages_loop_closed_form)
  have empty: "?cs = [] \<Longrightarrow> report = []" using rep by simp
  have nonempty: "strip report \<noteq> [] \<and> prefix (py ''\<newline>--- Page '') report" if "?cs \<noteq> []"
  proof -
    from that obtain i c rest where cs: "?cs = (i, c) # rest" by (cases ?cs) auto
    with rep have r: "report = page_block i c @ concat (map (\<lambda>(i, c). page_block i c) rest)"
      by simp
    then have "45 \<in> set report" using page_block_props(4) [of i c] by simp
    moreover have "\<not> isspace 45" by (simp add: isspace_def)
    ultimately have "strip report \<noteq> []" by (auto simp: strip_eq_Nil)
    moreover have "prefix (py ''\<newline>--- Page '') report"
      unfolding r page_block_def page_marker_def by (simp add: prefix_def)
    ultimately show ?thesis ..
  qed
  show "(strip report = []) = (\<forall>p\<in>set pages. \<not> contributes p)"
    using empty nonempty contributing_pages_Nil [of 0 pages] by (cases "?cs = []") (auto simp: strip_def)
  show "(strip report = []) = (report = [])"
    using empty nonempty by (cases "?cs = []") (auto simp: strip_def)
  show "strip report \<noteq> [] \<Longrightarrow> prefix (py ''\<newline>--- Page '') report"
    using empty nonempty by (cases "?cs = []") (auto simp: strip_def)
qed

lemma read_data_tool_opened:
  assumes "fs path = Some bytes" and "PdfReader bytes = Inr pages"
    and "pages_loop 0 [] pages = Inr report"
  shows "read_data_tool PdfReader fs path =
     ([Stat path, Open path],
      Inr (if strip report = [] then py ''Warning: No readable text found in the PDF.''
           else report))"
  using assms by (simp add: read_data_tool_def read_data_tool_try_def)




lemma pages_loop_prefix:
  "pages_loop n r pages = Inr final \<Longrightarrow> prefix r final"
  using pages_loop_report [of n r "[]" pages]
  by (cases "pages_loop n [] pages") auto

lemma pages_loop_step:
  assumes "pages_loop 0 [] before = Inr report" and "content \<noteq> []"
  shows "pages_loop 0 [] (before @ Inr (Some content) # after) =
           pages_loop (length before + 1)
             (report @ page_marker (length before) @ strip (collapse_newlines content) @ [10])
             after"
  using assms by (simp add: pages_loop_append)

lemma concat_blocks_last:
  "cs \<noteq> [] \<Longrightarrow> concat (map (\<lambda>(i, c). page_block i c) cs) \<noteq> []
     \<and> last (concat (map (\<lambda>(i, c). page_block i c) cs)) = 10"
proof (induction cs rule: rev_induct)
  case Nil
  then show ?case by simp
next
  case (snoc x xs)
  obtain i c where x: "x = (i, c)" by (cases x)
  show ?case using page_block_props(1,3) [of i c] by (simp add: x)
qed

lemma concat_blocks_hd:
  "cs \<noteq> [] \<Longrightarrow> concat (map (\<lambda>(i, c). page_block i c) cs) \<noteq> []
     \<and> hd (concat (map (\<lambda>(i, c). page_block i c) cs)) = 10"
proof (cases cs)
  case Nil
  assume "cs \<noteq> []"
  with Nil show ?thesis by simp
next
  case (Cons x xs)
  obtain i c where x: "x = (i, c)" by (cases x)
  show ?thesis using page_block_props(1,2) [of i c] by (simp add: Cons x)
qed

section \<open>The routine as a whole\<close>

lemmas eval_simps = collapse_newlines.simps str_replace_def strip_def isspace_def
  page_marker_def str_of_nat.simps




text \<open>
  Claim C2. When nothing exists at the path, \<open>read_data_tool\<close> returns exactly
  "Error: File not found at " followed by the path; it only tests the existence of the
  path and does not open the document.
\<close>

theorem file_not_found:
  assumes "fs path = None"
  shows "read_data_tool PdfReader fs path
           = ([Stat path], Inr (py ''Error: File not found at '' @ path))
       \<and> (\<forall>p. Open p \<notin> set (fst (read_data_tool PdfReader fs path)))"
  using assms by (simp add: read_data_tool_def read_data_tool_try_def)

theorem file_not_found_witness:
  "Map.empty (py ''missing.pdf'') = (None :: string option)
   \<and> read_data_tool (\<lambda>bytes. Inr []) Map.empty (py ''missing.pdf'')
       = ([Stat (py ''missing.pdf'')], Inr (py ''Error: File not found at missing.pdf''))"
proof -
  have h: "(Map.empty :: filesystem) (py ''missing.pdf'') = None" by simp
  from file_not_found [OF h, of "\<lambda>bytes. Inr []"] show ?thesis by simp
qed

text \<open>
  Claim C4. For a document that opens and whose page loop ends with the report
  \<open>report\<close>: if the report is empty after trimming, which is the case exactly when no
  page added a block, the result is the literal warning string; otherwise the result is
  the report, and it begins with the newline of the first page marker.
\<close>

theorem report_or_warning:
  assumes "fs path = Some bytes" and "PdfReader bytes = Inr pages"
    and "pages_loop 0 [] pages = Inr report"
  shows "snd (read_data_tool PdfReader fs path)
           = Inr (if strip report = [] then py ''Warning: No readable text found in the PDF.''
                  else report)
       \<and> (strip report = []) = (\<forall>p\<in>set pages. \<not> contributes p)
       \<and> (strip report \<noteq> [] \<longrightarrow> hd report = 10 \<and> prefix (py ''\<newline>--- Page '') report)"
proof (intro conjI impI)
  show "snd (read_data_tool PdfReader fs path)
           = Inr (if strip report = [] then py ''Warning: No readable text found in the PDF.''
                  else report)"
    using assms by (simp add: read_data_tool_opened [of fs path bytes PdfReader pages report])
  show "(strip report = []) = (\<forall>p\<in>set pages. \<not> contributes p)"
    by (rule report_nonempty(1) [OF assms(3)])
  assume "strip report \<noteq> []"
  then have p: "prefix (py ''\<newline>--- Page '') report"
    by (rule report_nonempty(3) [OF assms(3)])
  then show "hd report = 10" by (auto simp: prefix_def)
  from p show "prefix (py ''\<newline>--- Page '') report" .
qed

theorem report_or_warning_witness:
  "snd (read_data_tool (\<lambda>bytes. Inr [Inr None, Inr (Some [])])
          [py ''scan.pdf'' \<mapsto> ''%PDF''] (py ''scan.pdf''))
     = Inr (py ''Warning: No readable text found in the PDF.'')
   \<and> snd (read_data_tool (\<lambda>bytes. Inr [Inr (Some (py ''Revenue\<newline>\<newline>\<newline>Growth''))])
          [py ''report.pdf'' \<mapsto> ''%PDF''] (py ''report.pdf''))
     = Inr (py ''\<newline>--- Page 1 ---\<newline>Revenue\<newline>Growth\<newline>'')"
proof -
  let ?lib1 = "\<lambda>bytes::string. Inr [Inr None, Inr (Some [])] :: exn + page list"
  let ?lib2 = "\<lambda>bytes::string.
    Inr [Inr (Some (py ''Revenue\<newline>\<newline>\<newline>Growth''))] :: exn + page list"
  have l1: "pages_loop 0 [] [Inr None, Inr (Some [])] = Inr []" by simp
  have l2: "pages_loop 0 [] [Inr (Some (py ''Revenue\<newline>\<newline>\<newline>Growth''))]
      = Inr (py ''\<newline>--- Page 1 ---\<newline>Revenue\<newline>Growth\<newline>'')"
    by (simp add: eval_simps)
  have s2: "strip (py ''\<newline>--- Page 1 ---\<newline>Revenue\<newline>Growth\<newline>'') \<noteq> []"
    by (simp add: strip_def isspace_def)
  have "snd (read_data_tool ?lib1 [py ''scan.pdf'' \<mapsto> ''%PDF''] (py ''scan.pdf''))
      = Inr (py ''Warning: No readable text found in the PDF.'')"
    using report_or_warning [of "[py ''scan.pdf'' \<mapsto> ''%PDF'']" "py ''scan.pdf''" "''%PDF''"
        ?lib1 "[Inr None, Inr (Some [])]" "[]"] l1
    by (simp add: strip_def)
  moreover have "snd (read_data_tool ?lib2 [py ''report.pdf'' \<mapsto> ''%PDF''] (py ''report.pdf''))
      = Inr (py ''\<newline>--- Page 1 ---\<newline>Revenue\<newline>Growth\<newline>'')"
    using report_or_warning [of "[py ''report.pdf'' \<mapsto> ''%PDF'']" "py ''report.pdf''" "''%PDF''"
        ?lib2 "[Inr (Some (py ''Revenue\<newline>\<newline>\<newline>Growth''))]"
        "py ''\<newline>--- Page 1 ---\<newline>Revenue\<newline>Growth\<newline>''"] l2 s2
    by simp
  ultimately show ?thesis by (rule conjI)
qed

section \<open>The page loop and the report\<close>

text \<open>
  Claim C3. A page with non-empty extracted text, at position \<open>length before\<close> of the
  document (counted from 0) and reached with the report \<open>report\<close>, appends exactly
  the marker line with the page number \<open>length before + 1\<close>, then the body, then one
  newline. The body is the text with every run of newlines squeezed to one newline and
  then trimmed: it has no two consecutive newlines and, when it is not empty, neither
  begins nor ends with white space. The block stays at that place in the final report.
\<close>

theorem page_block_appended:
  assumes "pages_loop 0 [] before = Inr report" and "content \<noteq> []"
  shows "pages_loop 0 [] (before @ Inr (Some content) # after) =
           pages_loop (length before + 1)
             (report @ py ''\<newline>--- Page '' @ str_of_nat (length before + 1) @ py '' ---\<newline>''
                @ strip (squeeze_newline_runs content) @ py ''\<newline>'')
             after
       \<and> \<not> str_contains (py ''\<newline>\<newline>'') (strip (squeeze_newline_runs content))
       \<and> (strip (squeeze_newline_runs content) \<noteq> [] \<longrightarrow>
            \<not> isspace (hd (strip (squeeze_newline_runs content)))
            \<and> \<not> isspace (last (strip (squeeze_newline_runs content))))
       \<and> (\<forall>final. pages_loop 0 [] (before @ Inr (Some content) # after) = Inr final \<longrightarrow>
            prefix (report @ py ''\<newline>--- Page '' @ str_of_nat (length before + 1)
                      @ py '' ---\<newline>'' @ strip (squeeze_newline_runs content) @ py ''\<newline>'')
              final)"
proof (intro conjI allI impI)
  let ?body = "strip (squeeze_newline_runs content)"
  let ?acc = "report @ py ''\<newline>--- Page '' @ str_of_nat (length before + 1) @ py '' ---\<newline>''
                @ ?body @ py ''\<newline>''"
  show step: "pages_loop 0 [] (before @ Inr (Some content) # after) =
      pages_loop (length before + 1) ?acc after"
    using pages_loop_step [OF assms, of after]
    by (simp add: page_marker_def collapse_eq_squeeze)
  have "\<not> sublist [10, 10] (squeeze_newline_runs content)"
    using collapse_no_nn [of content] by (simp add: collapse_eq_squeeze)
  then show "\<not> str_contains (py ''\<newline>\<newline>'') ?body"
    by (simp add: str_contains_sublist strip_no_nn)
  show "\<not> isspace (hd ?body)" if "?body \<noteq> []"
    using that by (rule strip_ends(1))
  show "\<not> isspace (last ?body)" if "?body \<noteq> []"
    using that by (rule strip_ends(2))
  show "prefix ?acc final"
    if "pages_loop 0 [] (before @ Inr (Some content) # after) = Inr final" for final
    using that unfolding step by (rule pages_loop_prefix)
qed


theorem page_block_appended_witness:
  "pages_loop 0 [] [Inr (Some (py ''Cover'')), Inr None] = Inr (py ''\<newline>--- Page 1 ---\<newline>Cover\<newline>'')
   \<and> py ''  Revenue\<newline>\<newline>\<newline>Growth\<newline>\<newline>'' \<noteq> []
   \<and> pages_loop 0 []
         ([Inr (Some (py ''Cover'')), Inr None]
            @ Inr (Some (py ''  Revenue\<newline>\<newline>\<newline>Growth\<newline>\<newline>'')) # [])
       = Inr (py ''\<newline>--- Page 1 ---\<newline>Cover\<newline>\<newline>--- Page 3 ---\<newline>Revenue\<newline>Growth\<newline>'')"
proof -
  have h1: "pages_loop 0 [] [Inr (Some (py ''Cover'')), Inr None]
      = Inr (py ''\<newline>--- Page 1 ---\<newline>Cover\<newline>'')"
    by (simp add: eval_simps)
  have h2: "py ''  Revenue\<newline>\<newline>\<newline>Growth\<newline>\<newline>'' \<noteq> []" by simp
  have "pages_loop 0 []
         ([Inr (Some (py ''Cover'')), Inr None]
            @ Inr (Some (py ''  Revenue\<newline>\<newline>\<newline>Growth\<newline>\<newline>'')) # [])
       = Inr (py ''\<newline>--- Page 1 ---\<newline>Cover\<newline>\<newline>--- Page 3 ---\<newline>Revenue\<newline>Growth\<newline>'')"
    using page_block_appended [OF h1 h2, of "[]"]
    by (simp add: eval_simps)
  with h1 h2 show ?thesis by blast
qed

text \<open>
  Claim C5. When no page raises, the report is the concatenation of the blocks of the
  contributing pages and of nothing else. A page contributes exactly when its extracted
  text is present and non-empty, the contributing pages come in increasing order of
  their index, and each block carries the page's own number, so a skipped page leaves a
  gap in the numbers. With at least one contributing page this report is the result of
  the routine.
\<close>

theorem empty_pages_skipped:
  assumes "\<forall>p\<in>set pages. \<not> isl p"
  shows "pages_loop 0 [] pages
           = Inr (concat (map (\<lambda>(i, content). page_block i content) (contributing_pages 0 pages)))
       \<and> (\<forall>i content. (i, content) \<in> set (contributing_pages 0 pages) \<longleftrightarrow>
            i < length pages \<and> pages ! i = Inr (Some content) \<and> content \<noteq> [])
       \<and> sorted_wrt (<) (map fst (contributing_pages 0 pages))
       \<and> (\<forall>bytes. fs path = Some bytes \<and> PdfReader bytes = Inr pages
            \<and> contributing_pages 0 pages \<noteq> [] \<longrightarrow>
            snd (read_data_tool PdfReader fs path)
              = Inr (concat (map (\<lambda>(i, content). page_block i content)
                       (contributing_pages 0 pages))))"
proof (intro conjI allI impI)
  let ?report = "concat (map (\<lambda>(i, content). page_block i content) (contributing_pages 0 pages))"
  show loop: "pages_loop 0 [] pages = Inr ?report"
    using pages_loop_closed_form [OF assms, of 0 "[]"] by simp
  show "(i, content) \<in> set (contributing_pages 0 pages) \<longleftrightarrow>
      i < length pages \<and> pages ! i = Inr (Some content) \<and> content \<noteq> []" for i content
    by (simp add: contributing_pages_mem)
  show "sorted_wrt (<) (map fst (contributing_pages 0 pages))"
    by (rule contributing_pages_sorted)
  show "snd (read_data_tool PdfReader fs path) = Inr ?report"
    if a: "fs path = Some bytes \<and> PdfReader bytes = Inr pages \<and> contributing_pages 0 pages \<noteq> []"
    for bytes
  proof -
    from a have "\<not> (\<forall>p\<in>set pages. \<not> contributes p)"
      by (simp add: contributing_pages_Nil)
    then have "strip ?report \<noteq> []"
      using report_nonempty(1) [OF loop] by simp
    with a loop show ?thesis
      by (simp add: read_data_tool_opened [of fs path bytes PdfReader pages ?report])
  qed
qed

theorem empty_pages_skipped_witness:
  "snd (read_data_tool
          (\<lambda>bytes. Inr [Inr (Some (py ''Assets'')), Inr None, Inr (Some (py ''Equity'')), Inr (Some [])])
          [py ''q.pdf'' \<mapsto> ''%PDF''] (py ''q.pdf''))
     = Inr (py ''\<newline>--- Page 1 ---\<newline>Assets\<newline>\<newline>--- Page 3 ---\<newline>Equity\<newline>'')"
proof -
  let ?pages = "[Inr (Some (py ''Assets'')), Inr None, Inr (Some (py ''Equity'')), Inr (Some [])] :: page list"
  let ?lib = "\<lambda>bytes::string. Inr ?pages :: exn + page list"
  have h: "\<forall>p\<in>set ?pages. \<not> isl p" by simp
  have cs: "contributing_pages 0 ?pages = [(0, py ''Assets''), (2, py ''Equity'')]"
    by (simp add: contributing_pages_simps)
  from empty_pages_skipped [OF h, of "[py ''q.pdf'' \<mapsto> ''%PDF'']" "py ''q.pdf''" ?lib]
  have "snd (read_data_tool ?lib [py ''q.pdf'' \<mapsto> ''%PDF''] (py ''q.pdf''))
      = Inr (concat (map (\<lambda>(i, content). page_block i content) (contributing_pages 0 ?pages)))"
    unfolding cs by simp
  then show ?thesis
    unfolding cs by (simp add: page_block_def eval_simps)
qed

text \<open>
  Claim C9. A page whose extracted text is not empty and is all white space still adds
  its marker, followed by an empty body and a newline; only a page whose text is absent
  or the empty string is skipped. The routine then returns the report with that marker,
  not the warning string.
\<close>

theorem whitespace_page_marked:
  assumes "content \<noteq> []" and "\<forall>c\<in>set content. isspace c"
    and "pages_loop 0 [] before = Inr report"
  shows "pages_loop 0 [] (before @ Inr (Some content) # after)
           = pages_loop (length before + 1)
               (report @ py ''\<newline>--- Page '' @ str_of_nat (length before + 1)
                  @ py '' ---\<newline>'' @ [] @ py ''\<newline>'')
               after
       \<and> pages_loop n r (Inr None # after) = pages_loop (n + 1) r after
       \<and> pages_loop n r (Inr (Some []) # after) = pages_loop (n + 1) r after
       \<and> (\<forall>bytes final.
             fs path = Some bytes \<and> PdfReader bytes = Inr (before @ Inr (Some content) # after)
             \<and> pages_loop 0 [] (before @ Inr (Some content) # after) = Inr final \<longrightarrow>
             snd (read_data_tool PdfReader fs path) = Inr final
             \<and> final \<noteq> py ''Warning: No readable text found in the PDF.''
             \<and> prefix (report @ py ''\<newline>--- Page '' @ str_of_nat (length before + 1)
                         @ py '' ---\<newline>\<newline>'') final)"
proof (intro conjI allI impI)
  let ?pages = "before @ Inr (Some content) # after"
  let ?acc = "report @ py ''\<newline>--- Page '' @ str_of_nat (length before + 1)
                  @ py '' ---\<newline>'' @ [] @ py ''\<newline>''"
  have "\<forall>c\<in>set (collapse_newlines content). isspace c"
    using assms(2) set_collapse [of content] by blast
  then have body: "strip (collapse_newlines content) = []"
    by (simp only: strip_eq_Nil)
  show step: "pages_loop 0 [] ?pages = pages_loop (length before + 1) ?acc after"
    using pages_loop_step [OF assms(3) assms(1), of after] body
    by (simp add: page_marker_def)
  show "pages_loop n r (Inr None # after) = pages_loop (n + 1) r after" by simp
  show "pages_loop n r (Inr (Some []) # after) = pages_loop (n + 1) r after" by simp
  fix bytes final
  assume a: "fs path = Some bytes \<and> PdfReader bytes = Inr ?pages
    \<and> pages_loop 0 [] ?pages = Inr final"
  then have loop: "pages_loop 0 [] ?pages = Inr final" by simp
  have "contributes (Inr (Some content))"
    using assms(1) by (simp add: contributes_def)
  then have "\<not> (\<forall>p\<in>set ?pages. \<not> contributes p)" by simp
  then have ne: "strip final \<noteq> []"
    using report_nonempty(1) [OF loop] by simp
  with a show "snd (read_data_tool PdfReader fs path) = Inr final"
    by (simp add: read_data_tool_opened [of fs path bytes PdfReader ?pages final])
  from ne have "prefix (py ''\<newline>--- Page '') final"
    by (rule report_nonempty(3) [OF loop])
  then show "final \<noteq> py ''Warning: No readable text found in the PDF.''"
    by (auto simp: prefix_def)
  from loop have "pages_loop (length before + 1) ?acc after = Inr final"
    unfolding step .
  then have "prefix ?acc final" by (rule pages_loop_prefix)
  then show "prefix (report @ py ''\<newline>--- Page '' @ str_of_nat (length before + 1)
                         @ py '' ---\<newline>\<newline>'') final"
    by simp
qed

theorem whitespace_page_marked_witness:
  "py '' \<newline>\<newline>  '' \<noteq> [] \<and> list_all isspace (py '' \<newline>\<newline>  '')
   \<and> snd (read_data_tool (\<lambda>bytes. Inr ([] @ Inr (Some (py '' \<newline>\<newline>  '')) # []))
            [py ''blank.pdf'' \<mapsto> ''%PDF''] (py ''blank.pdf''))
       = Inr (py ''\<newline>--- Page 1 ---\<newline>\<newline>'')"
proof -
  let ?c = "py '' \<newline>\<newline>  ''"
  let ?lib = "\<lambda>bytes::string. Inr ([] @ Inr (Some ?c) # []) :: exn + page list"
  let ?fs = "[py ''blank.pdf'' \<mapsto> ''%PDF'']"
  have h1: "?c \<noteq> []" by simp
  have h2: "\<forall>c\<in>set ?c. isspace c" by (simp add: isspace_def)
  have h3: "pages_loop 0 [] [] = Inr []" by simp
  have l: "pages_loop 0 [] ([] @ Inr (Some ?c) # []) = Inr (py ''\<newline>--- Page 1 ---\<newline>\<newline>'')"
    using whitespace_page_marked [OF h1 h2 h3, of "[]"]
    by (simp add: eval_simps)
  have "?fs (py ''blank.pdf'') = Some ''%PDF'' \<and> ?lib ''%PDF'' = Inr ([] @ Inr (Some ?c) # [])
     \<and> pages_loop 0 [] ([] @ Inr (Some ?c) # []) = Inr (py ''\<newline>--- Page 1 ---\<newline>\<newline>'')"
    using l by simp
  with whitespace_page_marked [OF h1 h2 h3, of "[]" _ _ ?fs "py ''blank.pdf''" ?lib]
  have "snd (read_data_tool ?lib ?fs (py ''blank.pdf'')) = Inr (py ''\<newline>--- Page 1 ---\<newline>\<newline>'')"
    by blast
  moreover have "list_all isspace ?c" by (simp add: isspace_def)
  ultimately show ?thesis using h1 by blast
qed

text \<open>
  Claim C10. At each boundary between two consecutive contributing pages the report has
  two newlines in a row: the newline that ends the block of the earlier page and the
  newline that begins the marker of the later one. The report splits there into the
  blocks up to the earlier page and the blocks from the later page on, and this report
  is what the routine returns.
\<close>

theorem adjacent_blocks_double_newline:
  assumes "\<forall>p\<in>set pages. \<not> isl p" and "Suc k < length (contributing_pages 0 pages)"
  shows "\<exists>pre post.
           pages_loop 0 [] pages = Inr (pre @ py ''\<newline>\<newline>'' @ post)
         \<and> pre @ py ''\<newline>''
             = concat (map (\<lambda>(i, content). page_block i content)
                 (take (Suc k) (contributing_pages 0 pages)))
         \<and> py ''\<newline>'' @ post
             = concat (map (\<lambda>(i, content). page_block i content)
                 (drop (Suc k) (contributing_pages 0 pages)))
         \<and> str_contains (py ''\<newline>\<newline>'') (pre @ py ''\<newline>\<newline>'' @ post)
         \<and> (\<forall>bytes. fs path = Some bytes \<and> PdfReader bytes = Inr pages \<longrightarrow>
              snd (read_data_tool PdfReader fs path) = Inr (pre @ py ''\<newline>\<newline>'' @ post))"
proof -
  let ?cs = "contributing_pages 0 pages"
  let ?blk = "\<lambda>(i, content). page_block i content"
  let ?A = "concat (map ?blk (take (Suc k) ?cs))"
  let ?B = "concat (map ?blk (drop (Suc k) ?cs))"
  let ?report = "concat (map ?blk ?cs)"
  have loop: "pages_loop 0 [] pages = Inr ?report"
    using pages_loop_closed_form [OF assms(1), of 0 "[]"] by simp
  have split: "?report = ?A @ ?B"
    by (metis append_take_drop_id concat_append map_append)
  from assms(2) have "take (Suc k) ?cs \<noteq> []" by auto
  then have A: "?A \<noteq> []" "last ?A = 10" using concat_blocks_last by blast+
  from assms(2) have "drop (Suc k) ?cs \<noteq> []" by simp
  then have B: "?B \<noteq> []" "hd ?B = 10" using concat_blocks_hd by blast+
  define pre where "pre = butlast ?A"
  define post where "post = tl ?B"
  from A have preA: "pre @ [10] = ?A"
    unfolding pre_def by (metis append_butlast_last_id)
  from B have postB: "10 # post = ?B"
    unfolding post_def by (metis list.collapse)
  have rep: "?report = pre @ [10, 10] @ post"
    using split preA postB by (metis append.assoc append_Cons append_Nil)
  have c1: "pages_loop 0 [] pages = Inr (pre @ py ''\<newline>\<newline>'' @ post)"
    using loop rep by simp
  have c2: "pre @ py ''\<newline>'' = ?A" using preA by simp
  have c3: "py ''\<newline>'' @ post = ?B" using postB by simp
  have c4: "str_contains (py ''\<newline>\<newline>'') (pre @ py ''\<newline>\<newline>'' @ post)"
  proof -
    have "sublist [10, 10] (pre @ [10, 10] @ post)" by (rule sublist_appendI)
    then show ?thesis by (simp add: str_contains_sublist)
  qed
  have c5: "snd (read_data_tool PdfReader fs path) = Inr (pre @ py ''\<newline>\<newline>'' @ post)"
    if a: "fs path = Some bytes \<and> PdfReader bytes = Inr pages" for bytes
  proof -
    from assms(2) have "?cs \<noteq> []" by auto
    then have "\<not> (\<forall>p\<in>set pages. \<not> contributes p)"
      by (simp add: contributing_pages_Nil)
    then have "strip (pre @ py ''\<newline>\<newline>'' @ post) \<noteq> []"
      using report_nonempty(1) [OF c1] by simp
    with a c1 show ?thesis
      by (simp add: read_data_tool_opened [of fs path bytes PdfReader pages "pre @ py ''\<newline>\<newline>'' @ post"])
  qed
  from c1 c2 c3 c4 c5 show ?thesis by blast
qed

theorem adjacent_blocks_double_newline_witness:
  "snd (read_data_tool
          (\<lambda>bytes. Inr [Inr (Some (py ''Assets'')), Inr (Some (py ''Equity''))])
          [py ''q.pdf'' \<mapsto> ''%PDF''] (py ''q.pdf''))
     = Inr (py ''\<newline>--- Page 1 ---\<newline>Assets\<newline>\<newline>--- Page 2 ---\<newline>Equity\<newline>'')
   \<and> str_contains (py ''\<newline>\<newline>'')
        (py ''\<newline>--- Page 1 ---\<newline>Assets\<newline>\<newline>--- Page 2 ---\<newline>Equity\<newline>'')"
proof -
  let ?pages = "[Inr (Some (py ''Assets'')), Inr (Some (py ''Equity''))] :: page list"
  let ?lib = "\<lambda>bytes::string. Inr ?pages :: exn + page list"
  let ?fs = "[py ''q.pdf'' \<mapsto> ''%PDF'']"
  have h1: "\<forall>p\<in>set ?pages. \<not> isl p" by simp
  have cs: "contributing_pages 0 ?pages = [(0, py ''Assets''), (1, py ''Equity'')]"
    by (simp add: contributing_pages_simps)
  have h2: "Suc 0 < length (contributing_pages 0 ?pages)"
    unfolding cs by simp
  from adjacent_blocks_double_newline [OF h1 h2, of ?fs "py ''q.pdf''" ?lib]
  obtain pre post where
    pp: "pre @ py ''\<newline>'' = concat (map (\<lambda>(i, content). page_block i content)
            (take (Suc 0) (contributing_pages 0 ?pages)))"
        "py ''\<newline>'' @ post = concat (map (\<lambda>(i, content). page_block i content)
            (drop (Suc 0) (contributing_pages 0 ?pages)))"
        "str_contains (py ''\<newline>\<newline>'') (pre @ py ''\<newline>\<newline>'' @ post)"
        "\<forall>bytes. ?fs (py ''q.pdf'') = Some bytes \<and> ?lib bytes = Inr ?pages \<longrightarrow>
           snd (read_data_tool ?lib ?fs (py ''q.pdf'')) = Inr (pre @ py ''\<newline>\<newline>'' @ post)"
    by blast
  from pp(1) have pre: "pre = py ''\<newline>--- Page 1 ---\<newline>Assets''"
    unfolding cs by (simp add: page_block_def eval_simps)
  from pp(2) have post: "post = py ''--- Page 2 ---\<newline>Equity\<newline>''"
    unfolding cs by (simp add: page_block_def eval_simps)
  from pp(4) have "snd (read_data_tool ?lib ?fs (py ''q.pdf'')) = Inr (pre @ py ''\<newline>\<newline>'' @ post)"
    by simp
  with pp(3) show ?thesis unfolding pre post by simp
qed

section \<open>Termination and idempotence of the normalization\<close>

lemma funpow_collapse_step:
  "((\<lambda>c. str_replace c (py ''\<newline>\<newline>'') (py ''\<newline>'')) ^^ Suc k) s =
   ((\<lambda>c. str_replace c (py ''\<newline>\<newline>'') (py ''\<newline>'')) ^^ k) (replace_scan [10, 10] [10] s)"
  by (simp add: funpow_swap1 str_replace_nn)

text \<open>
  Claim C6. For every input string the newline-collapsing loop terminates: after some
  number \<open>n\<close> of rounds, at most the length of the input, the test of the loop is false;
  it was true before each of the \<open>n\<close> rounds, the loop returns the string reached
  after them, and that string contains no two consecutive newlines.
\<close>

theorem collapse_newlines_terminates:
  "\<exists>n\<le>length content.
     collapse_newlines content
       = ((\<lambda>c. str_replace c (py ''\<newline>\<newline>'') (py ''\<newline>'')) ^^ n) content
     \<and> (\<forall>k<n. str_contains (py ''\<newline>\<newline>'')
            (((\<lambda>c. str_replace c (py ''\<newline>\<newline>'') (py ''\<newline>'')) ^^ k) content))
     \<and> \<not> str_contains (py ''\<newline>\<newline>'') (collapse_newlines content)"
proof (induction content rule: collapse_newlines.induct)
  case (1 content)
  let ?f = "\<lambda>c. str_replace c (py ''\<newline>\<newline>'') (py ''\<newline>'')"
  let ?r = "replace_scan [10, 10] [10] content"
  show ?case
  proof (cases "sublist [10, 10] content")
    case True
    then have unfold: "collapse_newlines content = collapse_newlines ?r"
      by (subst collapse_newlines.simps) (simp add: str_contains_sublist str_replace_nn)
    from 1 True obtain n where n: "n \<le> length ?r"
      "collapse_newlines ?r = (?f ^^ n) ?r"
      "\<forall>k<n. str_contains (py ''\<newline>\<newline>'') ((?f ^^ k) ?r)"
      "\<not> str_contains (py ''\<newline>\<newline>'') (collapse_newlines ?r)"
      by (auto simp: str_contains_sublist str_replace_nn)
    have "Suc n \<le> length content"
      using n(1) replace_scan_shorter [OF True] by simp
    moreover have "collapse_newlines content = (?f ^^ Suc n) content"
      using unfold n(2) by (simp only: funpow_collapse_step)
    moreover have "\<forall>k<Suc n. str_contains (py ''\<newline>\<newline>'') ((?f ^^ k) content)"
    proof (intro allI impI)
      fix k assume k: "k < Suc n"
      show "str_contains (py ''\<newline>\<newline>'') ((?f ^^ k) content)"
      proof (cases k)
        case 0
        with True show ?thesis by (simp add: str_contains_sublist)
      next
        case (Suc j)
        with k n(3) have "str_contains (py ''\<newline>\<newline>'') ((?f ^^ j) ?r)" by simp
        with Suc show ?thesis by (simp only: funpow_collapse_step)
      qed
    qed
    moreover have "\<not> str_contains (py ''\<newline>\<newline>'') (collapse_newlines content)"
      using n(4) unfold by simp
    ultimately show ?thesis by blast
  next
    case False
    then have "collapse_newlines content = content"
      by (subst collapse_newlines.simps) (simp add: str_contains_sublist)
    with False show ?thesis
      by (intro exI [of _ 0]) (simp add: str_contains_sublist)
  qed
qed

theorem collapse_newlines_terminates_witness:
  "(\<exists>n\<le>6. collapse_newlines (py ''a\<newline>\<newline>\<newline>\<newline>b'')
       = ((\<lambda>c. str_replace c (py ''\<newline>\<newline>'') (py ''\<newline>'')) ^^ n)
           (py ''a\<newline>\<newline>\<newline>\<newline>b'')
     \<and> \<not> str_contains (py ''\<newline>\<newline>'')
           (collapse_newlines (py ''a\<newline>\<newline>\<newline>\<newline>b'')))
   \<and> collapse_newlines (py ''a\<newline>\<newline>\<newline>\<newline>b'') = py ''a\<newline>b''"
proof -
  let ?f = "\<lambda>c. str_replace c (py ''\<newline>\<newline>'') (py ''\<newline>'')"
  let ?X = "py ''a\<newline>\<newline>\<newline>\<newline>b''"
  have v: "collapse_newlines ?X = py ''a\<newline>b''"
    by (simp add: collapse_newlines.simps str_replace_def)
  have len: "length ?X = 6" by simp
  from collapse_newlines_terminates [of ?X] obtain n where
    n: "n \<le> length ?X" "collapse_newlines ?X = (?f ^^ n) ?X"
       "\<not> str_contains (py ''\<newline>\<newline>'') (collapse_newlines ?X)"
    by blast
  from n(1) len have "n \<le> 6" by (simp only:)
  with n(2,3) have "\<exists>n\<le>6. collapse_newlines ?X = (?f ^^ n) ?X
      \<and> \<not> str_contains (py ''\<newline>\<newline>'') (collapse_newlines ?X)"
    by blast
  with v show ?thesis by blast
qed

text \<open>
  Claim C7. The newline normalization is idempotent: a string with no two consecutive
  newline characters is left unchanged by one replacement step and by the whole loop,
  and running the loop on its own result changes nothing.
\<close>

theorem collapse_newlines_idempotent:
  assumes "\<not> str_contains (py ''\<newline>\<newline>'') s"
  shows "str_replace s (py ''\<newline>\<newline>'') (py ''\<newline>'') = s
       \<and> collapse_newlines s = s
       \<and> collapse_newlines (collapse_newlines t) = collapse_newlines t"
proof (intro conjI)
  from assms have ns: "\<not> sublist [10, 10] s" by (simp add: str_contains_sublist)
  then show "str_replace s (py ''\<newline>\<newline>'') (py ''\<newline>'') = s"
    by (simp add: str_replace_nn replace_scan_nn_id)
  from assms show "collapse_newlines s = s"
    by (subst collapse_newlines.simps) simp
  have "\<not> str_contains (py ''\<newline>\<newline>'') (collapse_newlines t)"
    using collapse_no_nn [of t] by (simp add: str_contains_sublist)
  then show "collapse_newlines (collapse_newlines t) = collapse_newlines t"
    by (subst collapse_newlines.simps) simp
qed

theorem collapse_newlines_idempotent_witness:
  "\<not> str_contains (py ''\<newline>\<newline>'') (py ''Revenue\<newline>Growth'')
   \<and> str_replace (py ''Revenue\<newline>Growth'') (py ''\<newline>\<newline>'') (py ''\<newline>'')
       = py ''Revenue\<newline>Growth''
   \<and> collapse_newlines (py ''Revenue\<newline>Growth'') = py ''Revenue\<newline>Growth''"
proof -
  have h: "\<not> str_contains (py ''\<newline>\<newline>'') (py ''Revenue\<newline>Growth'')" by simp
  from collapse_newlines_idempotent [OF h] h show ?thesis by blast
qed

end
